theory Spec2Isabelle
  imports Main "HOL-Library.Multiset" "HOL-Library.Monad_Syntax" "HOL-Library.Signed_Division"
begin

section \<open>The n-th smallest element: quickselect and bounded max-heap\<close>

text \<open>
  This theory embeds \<^verbatim>\<open>algorithm/sort_n_smallest.cpp\<close>. The two entry points take the
  vector by value, so each call works on a private copy, which the model threads through
  the loops and returns beside the result.

  The elements are C++ \<^verbatim>\<open>int\<close>s that the code only compares and moves, never computes
  with; they are \<open>int\<close> here. The index variables (\<^verbatim>\<open>low\<close>, \<^verbatim>\<open>high\<close>, \<^verbatim>\<open>i\<close>, \<^verbatim>\<open>j\<close>,
  \<^verbatim>\<open>parent\<close>, \<^verbatim>\<open>child\<close>) are signed, and \<^verbatim>\<open>i\<close> does start at \<^verbatim>\<open>low - 1 = -1\<close>, so they
  are \<open>int\<close> as well, not \<open>nat\<close>. In C++ they have 32 bits, and a vector can hold more
  cells than that. The model writes out the three places where this shows:
  \<^item> \<^verbatim>\<open>quickSelect(nums, 0, nums.size() - 1, n)\<close> converts a \<^verbatim>\<open>size_t\<close> to \<^verbatim>\<open>int\<close>
    (\<open>to_int\<close>);
  \<^item> \<^verbatim>\<open>int size = nums.size()\<close> does the same;
  \<^item> \<^verbatim>\<open>2 * parent + 1\<close> in \<^verbatim>\<open>heapifyDown\<close> overflows once \<^verbatim>\<open>parent\<close> reaches \<open>2 ^ 30\<close>
    (\<open>left_child\<close>).

  Every other index expression is reached only with a value between \<open>-1\<close> and the value
  of an \<^verbatim>\<open>int\<close> variable (\<^verbatim>\<open>high\<close>, \<^verbatim>\<open>end\<close>, \<^verbatim>\<open>size\<close> or \<^verbatim>\<open>n\<close>), and cannot overflow.
  The rank \<^verbatim>\<open>n\<close> is an \<^verbatim>\<open>int\<close> parameter; the model takes any \<open>int\<close>, of which the program
  can receive those of 32 bits.

  \<^verbatim>\<open>operator[]\<close> of \<^verbatim>\<open>std::vector\<close> does not check its index: an access outside the vector
  is undefined behaviour, and so is the overflow of a signed operation. The model makes
  every access a checked one and gives \<open>None\<close> where the C++ program would leave defined
  behaviour, so a result \<open>Some v\<close> says that the run stayed inside the vector and inside
  32 bits, and returned \<open>v\<close>.
\<close>

subsection \<open>Vector accesses\<close>

definition vec_at :: "int list \<Rightarrow> int \<Rightarrow> int option" where
  "vec_at arr i = (if 0 \<le> i \<and> i < int (length arr) then Some (arr ! nat i) else None)"

definition vec_put :: "int list \<Rightarrow> int \<Rightarrow> int \<Rightarrow> int list option" where
  "vec_put arr i v = (if 0 \<le> i \<and> i < int (length arr) then Some (arr[nat i := v]) else None)"

subsection \<open>32-bit integers\<close>

text \<open>
  The conversion of an unsigned size to \<^verbatim>\<open>int\<close> keeps the value modulo \<open>2 ^ 32\<close> (the rule
  of C++20, and what the compilers did before it): a size from \<open>2 ^ 31\<close> on becomes a
  different, possibly negative, number.
\<close>

definition to_int :: "int \<Rightarrow> int" where
  "to_int x = (x + 2 ^ 31) mod 2 ^ 32 - 2 ^ 31"

text \<open>
  \<^verbatim>\<open>2 * parent + 1\<close> on \<^verbatim>\<open>int\<close>: the value when both operations stay inside 32 bits,
  undefined behaviour otherwise.
\<close>

definition left_child :: "int \<Rightarrow> int option" where
  "left_child parent =
     (if - (2 ^ 31) \<le> 2 * parent \<and> 2 * parent + 1 < 2 ^ 31 then Some (2 * parent + 1) else None)"

subsection \<open>QuickSelect\<close>

text \<open>
  The \<^verbatim>\<open>for\<close> loop of the lambda \<^verbatim>\<open>partition\<close>:
  \<^verbatim>\<open>for (int j = low; j < high; j++) if (arr[j] <= pivot) { i++; swap arr[i], arr[j] }\<close>.
  It returns the vector and the final \<^verbatim>\<open>i\<close>.
\<close>

function partition_loop :: "int list \<Rightarrow> int \<Rightarrow> int \<Rightarrow> int \<Rightarrow> int \<Rightarrow> (int list \<times> int) option" where
  "partition_loop arr pivot high i j =
     (if j < high then do {
        aj \<leftarrow> vec_at arr j;
        if aj \<le> pivot then do {
          temp \<leftarrow> vec_at arr (i + 1);
          aj' \<leftarrow> vec_at arr j;
          arr1 \<leftarrow> vec_put arr (i + 1) aj';
          arr2 \<leftarrow> vec_put arr1 j temp;
          partition_loop arr2 pivot high (i + 1) (j + 1)
        } else partition_loop arr pivot high i (j + 1)
      } else Some (arr, i))"
  by pat_completeness auto
termination
  by (relation "measure (\<lambda>(arr, pivot, high, i, j). nat (high - j))") auto

declare partition_loop.simps [simp del]

text \<open>
  The lambda \<^verbatim>\<open>partition\<close> (the name \<open>partition\<close> is taken by the list library): the pivot
  is the last element of the segment; after the loop the pivot is swapped to \<^verbatim>\<open>i + 1\<close>,
  which is returned.
\<close>

definition partition_arr :: "int list \<Rightarrow> int \<Rightarrow> int \<Rightarrow> (int list \<times> int) option" where
  "partition_arr arr low high = do {
     pivot \<leftarrow> vec_at arr high;
     (arr1, i) \<leftarrow> partition_loop arr pivot high (low - 1) low;
     temp \<leftarrow> vec_at arr1 (i + 1);
     ah \<leftarrow> vec_at arr1 high;
     arr2 \<leftarrow> vec_put arr1 (i + 1) ah;
     arr3 \<leftarrow> vec_put arr2 high temp;
     Some (arr3, i + 1)
   }"

text \<open>
  The lambda \<^verbatim>\<open>quickSelect\<close>. Its result is the returned value and the vector as the loop
  leaves it. The last argument and the last component of the result count the calls of
  \<^verbatim>\<open>partition\<close>; the counter is not in the source and no branch reads it.
\<close>

function quickSelect :: "int list \<Rightarrow> int \<Rightarrow> int \<Rightarrow> int \<Rightarrow> nat \<Rightarrow> (int \<times> int list \<times> nat) option" where
  "quickSelect arr low high k steps =
     (if low \<le> high then do {
        (arr1, pivotIndex) \<leftarrow> partition_arr arr low high;
        if pivotIndex = k - 1 then do {
          v \<leftarrow> vec_at arr1 pivotIndex;
          Some (v, arr1, Suc steps)
        }
        else if pivotIndex > k - 1 then quickSelect arr1 low (pivotIndex - 1) k (Suc steps)
        else quickSelect arr1 (pivotIndex + 1) high k (Suc steps)
      } else Some (- 1, arr, steps))"
  by pat_completeness auto

text \<open>
  The body of \<^verbatim>\<open>sort_nth_smallest_quickselect\<close>. The test \<^verbatim>\<open>n > nums.size()\<close> compares
  after converting \<^verbatim>\<open>n\<close> to the unsigned size type, but it is only reached with \<open>n > 0\<close>,
  where the conversion keeps the value. \<^verbatim>\<open>nums.size() - 1\<close> is computed in \<^verbatim>\<open>size_t\<close> and
  converted to the \<^verbatim>\<open>int\<close> parameter \<^verbatim>\<open>high\<close>.
\<close>

definition quickselect_run :: "int list \<Rightarrow> int \<Rightarrow> (int \<times> int list \<times> nat) option" where
  "quickselect_run nums n =
     (if n \<le> 0 \<or> n > int (length nums) then Some (- 1, nums, 0)
      else quickSelect nums 0 (to_int (int (length nums) - 1)) n 0)"

definition sort_nth_smallest_quickselect :: "int list \<Rightarrow> int \<Rightarrow> int option" where
  "sort_nth_smallest_quickselect nums n = map_option fst (quickselect_run nums n)"

subsection \<open>Bounded max-heap\<close>

text \<open>
  The first statement of the loop of \<^verbatim>\<open>heapifyDown\<close>:
  \<^verbatim>\<open>if (child + 1 <= end && arr[child + 1] > arr[child]) child++;\<close>
  The vector is read only when \<^verbatim>\<open>child + 1 <= end\<close>.
\<close>

definition larger_child :: "int list \<Rightarrow> int \<Rightarrow> int \<Rightarrow> int option" where
  "larger_child arr end' child =
     (if child + 1 \<le> end' then do {
        r \<leftarrow> vec_at arr (child + 1);
        l \<leftarrow> vec_at arr child;
        Some (if r > l then child + 1 else child)
      } else Some child)"

text \<open>
  The \<^verbatim>\<open>while (child <= end)\<close> loop of \<^verbatim>\<open>heapifyDown\<close>; \<open>end'\<close> stands for \<^verbatim>\<open>end\<close>, a
  keyword of Isabelle.
\<close>

function heapify_loop :: "int list \<Rightarrow> int \<Rightarrow> int \<Rightarrow> int \<Rightarrow> int list option" where
  "heapify_loop arr end' parent child =
     (if child \<le> end' then do {
        c \<leftarrow> larger_child arr end' child;
        ap \<leftarrow> vec_at arr parent;
        ac \<leftarrow> vec_at arr c;
        if ap \<ge> ac then Some arr
        else do {
          temp \<leftarrow> vec_at arr parent;
          ac' \<leftarrow> vec_at arr c;
          arr1 \<leftarrow> vec_put arr parent ac';
          arr2 \<leftarrow> vec_put arr1 c temp;
          child' \<leftarrow> left_child c;
          heapify_loop arr2 end' c child'
        }
      } else Some arr)"
  by pat_completeness auto
termination
proof (relation "measure (\<lambda>(arr, end', parent, child). nat (end' + 1 - child))")
  show "wf (measure (\<lambda>(arr, end', parent, child). nat (end' + 1 - child)))"
    by simp
next
  fix arr :: "int list" and end' parent child c ap ac child' :: int and arr1 arr2 :: "int list"
  assume le: "child \<le> end'"
    and c: "larger_child arr end' child = Some c"
    and ac: "vec_at arr c = Some ac"
    and child': "left_child c = Some child'"
  from c have "child \<le> c"
    by (auto simp: larger_child_def split: if_splits bind_splits)
  moreover from ac have "0 \<le> c"
    by (simp add: vec_at_def split: if_splits)
  moreover from child' have "child' = 2 * c + 1"
    by (simp add: left_child_def split: if_splits)
  ultimately show "((arr2, end', c, child'), (arr, end', parent, child))
      \<in> measure (\<lambda>(arr, end', parent, child). nat (end' + 1 - child))"
    using le by simp
qed

declare heapify_loop.simps [simp del]

definition heapifyDown :: "int list \<Rightarrow> int \<Rightarrow> int \<Rightarrow> int list option" where
  "heapifyDown arr start end' = do {
     child \<leftarrow> left_child start;
     heapify_loop arr end' start child
   }"

text \<open>Step 1: \<^verbatim>\<open>for (int i = (n - 2) / 2; i >= 0; i--) heapifyDown(nums, i, n - 1);\<close>\<close>

function build_loop :: "int list \<Rightarrow> int \<Rightarrow> int \<Rightarrow> int list option" where
  "build_loop arr n i =
     (if i \<ge> 0 then do {
        arr1 \<leftarrow> heapifyDown arr i (n - 1);
        build_loop arr1 n (i - 1)
      } else Some arr)"
  by pat_completeness auto
termination
  by (relation "measure (\<lambda>(arr, n, i). nat (i + 1))") auto

declare build_loop.simps [simp del]

text \<open>
  Step 2: \<^verbatim>\<open>for (int i = n; i < size; i++) if (nums[i] < nums[0]) { nums[0] = nums[i];
  heapifyDown(nums, 0, n - 1); }\<close>. The root is overwritten, not swapped.
\<close>

function scan_loop :: "int list \<Rightarrow> int \<Rightarrow> int \<Rightarrow> int \<Rightarrow> int list option" where
  "scan_loop arr n size' i =
     (if i < size' then do {
        x \<leftarrow> vec_at arr i;
        root \<leftarrow> vec_at arr 0;
        if x < root then do {
          x' \<leftarrow> vec_at arr i;
          arr1 \<leftarrow> vec_put arr 0 x';
          arr2 \<leftarrow> heapifyDown arr1 0 (n - 1);
          scan_loop arr2 n size' (i + 1)
        } else scan_loop arr n size' (i + 1)
      } else Some arr)"
  by pat_completeness auto
termination
  by (relation "measure (\<lambda>(arr, n, size', i). nat (size' - i))") auto

declare scan_loop.simps [simp del]

text \<open>
  The body of \<^verbatim>\<open>sort_nth_smallest_heap\<close>. The division of \<^verbatim>\<open>(n - 2) / 2\<close> truncates
  towards zero (\<^verbatim>\<open>(1 - 2) / 2 = 0\<close> in C++), which is \<open>sdiv\<close>, not \<open>div\<close>. The scan runs up
  to \<^verbatim>\<open>int size = nums.size()\<close>, the converted size.
\<close>

definition heap_run :: "int list \<Rightarrow> int \<Rightarrow> (int \<times> int list) option" where
  "heap_run nums n =
     (if n \<le> 0 \<or> n > int (length nums) then Some (- 1, nums)
      else do {
        arr1 \<leftarrow> build_loop nums n ((n - 2) sdiv 2);
        arr2 \<leftarrow> scan_loop arr1 n (to_int (int (length nums))) n;
        v \<leftarrow> vec_at arr2 0;
        Some (v, arr2)
      })"

definition sort_nth_smallest_heap :: "int list \<Rightarrow> int \<Rightarrow> int option" where
  "sort_nth_smallest_heap nums n = map_option fst (heap_run nums n)"

text \<open>\<^verbatim>\<open>sort_nth_smallest\<close> delegates to the QuickSelect variant.\<close>

definition sort_nth_smallest :: "int list \<Rightarrow> int \<Rightarrow> int option" where
  "sort_nth_smallest nums n = sort_nth_smallest_quickselect nums n"

subsection \<open>Vocabulary of the properties and of the invariants\<close>

text \<open>The cells \<open>low\<close> to \<open>high\<close> of a vector, both included.\<close>

definition segment :: "int list \<Rightarrow> int \<Rightarrow> int \<Rightarrow> int list" where
  "segment arr low high = take (nat (high - low + 1)) (drop (nat low) arr)"



section \<open>The pivot stays in the range, and QuickSelect terminates\<close>

lemma partition_loop_range:
  "partition_loop arr pivot high i j = Some (arr', i') \<Longrightarrow> i < j \<Longrightarrow> j \<le> high \<Longrightarrow>
     i \<le> i' \<and> i' < high"
proof (induction arr pivot high i j rule: partition_loop.induct)
  case (1 arr pivot high i j)
  show ?case
  proof (cases "j < high")
    case False
    with "1.prems" show ?thesis by (simp add: partition_loop.simps)
  next
    case True
    from "1.prems"(1) True obtain aj where aj: "vec_at arr j = Some aj"
      by (subst (asm) partition_loop.simps) (auto split: bind_splits)
    show ?thesis
    proof (cases "aj \<le> pivot")
      case le: True
      from "1.prems"(1) True aj le obtain temp arr1 arr2 where
        s: "vec_at arr (i + 1) = Some temp" "vec_put arr (i + 1) aj = Some arr1"
           "vec_put arr1 j temp = Some arr2"
           "partition_loop arr2 pivot high (i + 1) (j + 1) = Some (arr', i')"
        by (subst (asm) partition_loop.simps) (auto split: bind_splits)
      from "1.IH"(1) [OF True aj le s(1) aj s(2) s(3) s(4)] "1.prems" True
      show ?thesis by simp
    next
      case gt: False
      from "1.prems"(1) True aj gt have
        s: "partition_loop arr pivot high i (j + 1) = Some (arr', i')"
        by (subst (asm) partition_loop.simps) (auto split: bind_splits)
      from "1.IH"(2) [OF True aj gt s] "1.prems" True
      show ?thesis by simp
    qed
  qed
qed

lemma partition_arr_range:
  assumes "partition_arr arr low high = Some (arr', p)" and "low \<le> high"
  shows "low \<le> p \<and> p \<le> high"
proof -
  from assms(1) obtain pivot arr1 i where
    "partition_loop arr pivot high (low - 1) low = Some (arr1, i)" and "p = i + 1"
    by (auto simp: partition_arr_def split: bind_splits)
  with partition_loop_range [of arr pivot high "low - 1" low arr1 i] assms(2)
  show ?thesis by simp
qed

termination quickSelect
proof (relation "measure (\<lambda>(arr, low, high, k, steps). nat (high - low + 1))")
  show "wf (measure (\<lambda>(arr, low, high, k, steps). nat (high - low + 1)))"
    by simp
next
  fix arr :: "int list" and low high k :: int and steps :: nat
    and x :: "int list \<times> int" and arr1 :: "int list" and pivotIndex :: int
  assume "low \<le> high" "partition_arr arr low high = Some x" "(arr1, pivotIndex) = x"
  then have "low \<le> pivotIndex \<and> pivotIndex \<le> high"
    using partition_arr_range [of arr low high arr1 pivotIndex] by simp
  then show "((arr1, low, pivotIndex - 1, k, Suc steps), (arr, low, high, k, steps))
      \<in> measure (\<lambda>(arr, low, high, k, steps). nat (high - low + 1))"
    by simp
next
  fix arr :: "int list" and low high k :: int and steps :: nat
    and x :: "int list \<times> int" and arr1 :: "int list" and pivotIndex :: int
  assume "low \<le> high" "partition_arr arr low high = Some x" "(arr1, pivotIndex) = x"
  then have "low \<le> pivotIndex \<and> pivotIndex \<le> high"
    using partition_arr_range [of arr low high arr1 pivotIndex] by simp
  then show "((arr1, pivotIndex + 1, high, k, Suc steps), (arr, low, high, k, steps))
      \<in> measure (\<lambda>(arr, low, high, k, steps). nat (high - low + 1))"
    by simp
qed

declare quickSelect.simps [simp del]

section \<open>32-bit integers\<close>


lemma to_int_le: "0 \<le> x \<Longrightarrow> to_int x \<le> x"
proof -
  assume "0 \<le> x"
  then have "(x + 2 ^ 31) mod 2 ^ 32 \<le> x + 2 ^ 31"
    by (intro zmod_le_nonneg_dividend) simp
  then show ?thesis by (simp add: to_int_def)
qed


section \<open>The test cases of the source\<close>

text \<open>
  \<^verbatim>\<open>test_algorithms\<close> asserts the results of both algorithms on six inputs. The model
  computes the asserted values.
\<close>

lemma test_case_1:
  "map (sort_nth_smallest_quickselect [3, 1, 4, 1, 5, 9, 2, 6]) [1, 2, 3, 4, 5, 6, 7, 8]
     = map Some [1, 1, 2, 3, 4, 5, 6, 9]"
  "map (sort_nth_smallest_heap [3, 1, 4, 1, 5, 9, 2, 6]) [1, 2, 3, 4, 5, 6, 7, 8]
     = map Some [1, 1, 2, 3, 4, 5, 6, 9]"
  by code_simp+

lemma test_case_2:
  "map (sort_nth_smallest_quickselect [5, 2, 2, 1, 1, 3, 3, 3]) [1, 2, 3, 4, 5, 6, 7, 8]
     = map Some [1, 1, 2, 2, 3, 3, 3, 5]"
  "map (sort_nth_smallest_heap [5, 2, 2, 1, 1, 3, 3, 3]) [1, 2, 3, 4, 5, 6, 7, 8]
     = map Some [1, 1, 2, 2, 3, 3, 3, 5]"
  by code_simp+

lemma test_case_3:
  "map (sort_nth_smallest_quickselect [1, 2, 3, 4, 5, 6, 7, 8]) [1, 2, 3, 4, 5, 6, 7, 8]
     = map Some [1, 2, 3, 4, 5, 6, 7, 8]"
  "map (sort_nth_smallest_heap [1, 2, 3, 4, 5, 6, 7, 8]) [1, 2, 3, 4, 5, 6, 7, 8]
     = map Some [1, 2, 3, 4, 5, 6, 7, 8]"
  by code_simp+

lemma test_case_4:
  "map (sort_nth_smallest_quickselect [8, 7, 6, 5, 4, 3, 2, 1]) [1, 2, 3, 4, 5, 6, 7, 8]
     = map Some [1, 2, 3, 4, 5, 6, 7, 8]"
  "map (sort_nth_smallest_heap [8, 7, 6, 5, 4, 3, 2, 1]) [1, 2, 3, 4, 5, 6, 7, 8]
     = map Some [1, 2, 3, 4, 5, 6, 7, 8]"
  by code_simp+

lemma test_case_5:
  "sort_nth_smallest_quickselect [42] 1 = Some 42"
  "sort_nth_smallest_heap [42] 1 = Some 42"
  by code_simp+

lemma test_case_6:
  "sort_nth_smallest_quickselect [1, 2, 3] 0 = Some (- 1)"
  "sort_nth_smallest_heap [1, 2, 3] 0 = Some (- 1)"
  "sort_nth_smallest_quickselect [1, 2, 3] 5 = Some (- 1)"
  "sort_nth_smallest_heap [1, 2, 3] 5 = Some (- 1)"
  by code_simp+

section \<open>Order statistics of a list\<close>






section \<open>Swapping two cells\<close>

lemma nth_swap:
  assumes "0 \<le> a" "a < int (length arr)" "0 \<le> b" "b < int (length arr)" "0 \<le> k"
  shows "arr[nat a := x, nat b := y] ! nat k = (if k = b then y else if k = a then x else arr ! nat k)"
  using assms by (auto simp: nth_list_update eq_nat_nat_iff)

lemma mset_swap_int:
  assumes "0 \<le> a" "a < int (length arr)" "0 \<le> b" "b < int (length arr)"
  shows "mset (arr[nat a := arr ! nat b, nat b := arr ! nat a]) = mset arr"
  using assms mset_swap [of "nat b" arr "nat a"] by simp

section \<open>The partition loop\<close>

lemma partition_loop_exit: "\<not> j < high \<Longrightarrow> partition_loop arr pivot high i j = Some (arr, i)"
  by (simp add: partition_loop.simps)

lemma partition_loop_le:
  assumes "j < high" "0 \<le> i + 1" "i < j" "j < int (length arr)" "arr ! nat j \<le> pivot"
  shows "partition_loop arr pivot high i j =
    partition_loop (arr[nat (i + 1) := arr ! nat j, nat j := arr ! nat (i + 1)]) pivot high (i + 1) (j + 1)"
  using assms by (subst partition_loop.simps) (simp add: vec_at_def vec_put_def)

lemma partition_loop_gt:
  assumes "j < high" "0 \<le> j" "j < int (length arr)" "\<not> arr ! nat j \<le> pivot"
  shows "partition_loop arr pivot high i j = partition_loop arr pivot high i (j + 1)"
  using assms by (subst partition_loop.simps) (simp add: vec_at_def)

lemma partition_loop_spec:
  assumes "0 \<le> low" "low - 1 \<le> i" "i < j" "j \<le> high" "high \<le> int (length arr)"
    and "\<forall>k. low \<le> k \<and> k \<le> i \<longrightarrow> arr ! nat k \<le> pivot"
    and "\<forall>k. i < k \<and> k < j \<longrightarrow> pivot < arr ! nat k"
  shows "\<exists>arr' i'. partition_loop arr pivot high i j = Some (arr', i')
    \<and> length arr' = length arr \<and> mset arr' = mset arr \<and> low - 1 \<le> i' \<and> i' < high
    \<and> (\<forall>k. low \<le> k \<and> k \<le> i' \<longrightarrow> arr' ! nat k \<le> pivot)
    \<and> (\<forall>k. i' < k \<and> k < high \<longrightarrow> pivot < arr' ! nat k)
    \<and> (\<forall>k. 0 \<le> k \<and> (k < low \<or> high \<le> k) \<longrightarrow> arr' ! nat k = arr ! nat k)"
  using assms
proof (induction "nat (high - j)" arbitrary: arr i j)
  case 0
  then have "\<not> j < high" by simp
  with 0 show ?case by (simp add: partition_loop_exit)
next
  case (Suc m)
  then have jh: "j < high" and m: "m = nat (high - (j + 1))" by simp_all
  show ?case
  proof (cases "arr ! nat j \<le> pivot")
    case True
    let ?arr = "arr[nat (i + 1) := arr ! nat j, nat j := arr ! nat (i + 1)]"
    have ib: "0 \<le> i + 1" "i + 1 < int (length arr)" and jb: "0 \<le> j" "j < int (length arr)"
      using Suc.prems jh by simp_all
    have nth: "?arr ! nat k = (if k = j then arr ! nat (i + 1) else if k = i + 1 then arr ! nat j else arr ! nat k)"
      if "0 \<le> k" for k
      using nth_swap [OF ib jb that] .
    have step: "partition_loop arr pivot high i j = partition_loop ?arr pivot high (i + 1) (j + 1)"
      using jh ib jb Suc.prems True by (intro partition_loop_le) simp_all
    have le: "\<forall>k. low \<le> k \<and> k \<le> i + 1 \<longrightarrow> ?arr ! nat k \<le> pivot"
    proof (intro allI impI)
      fix k assume k: "low \<le> k \<and> k \<le> i + 1"
      then have "0 \<le> k" using Suc.prems(1) by simp
      then show "?arr ! nat k \<le> pivot"
        using k True Suc.prems(3,6) by (cases "k = i + 1") (simp_all add: nth)
    qed
    have gt: "\<forall>k. i + 1 < k \<and> k < j + 1 \<longrightarrow> pivot < ?arr ! nat k"
    proof (intro allI impI)
      fix k assume k: "i + 1 < k \<and> k < j + 1"
      then have "0 \<le> k" using ib by simp
      then show "pivot < ?arr ! nat k"
        using k Suc.prems(3,7) by (cases "k = j") (simp_all add: nth)
    qed
    from Suc.hyps(1) [OF m Suc.prems(1) _ _ _ _ le gt] Suc.prems jh
    obtain arr' i' where r: "partition_loop ?arr pivot high (i + 1) (j + 1) = Some (arr', i')"
      "length arr' = length ?arr" "mset arr' = mset ?arr" "low - 1 \<le> i'" "i' < high"
      "\<forall>k. low \<le> k \<and> k \<le> i' \<longrightarrow> arr' ! nat k \<le> pivot"
      "\<forall>k. i' < k \<and> k < high \<longrightarrow> pivot < arr' ! nat k"
      "\<forall>k. 0 \<le> k \<and> (k < low \<or> high \<le> k) \<longrightarrow> arr' ! nat k = ?arr ! nat k"
      by auto
    have "mset ?arr = mset arr"
      using mset_swap_int [OF ib jb] .
    moreover have "\<forall>k. 0 \<le> k \<and> (k < low \<or> high \<le> k) \<longrightarrow> arr' ! nat k = arr ! nat k"
      using r(8) Suc.prems(2,3) jh by (auto simp: nth)
    ultimately show ?thesis
      using r step by simp
  next
    case False
    have jb: "0 \<le> j" "j < int (length arr)"
      using Suc.prems jh by simp_all
    have step: "partition_loop arr pivot high i j = partition_loop arr pivot high i (j + 1)"
      using jh jb False by (intro partition_loop_gt) simp_all
    have gt: "\<forall>k. i < k \<and> k < j + 1 \<longrightarrow> pivot < arr ! nat k"
    proof (intro allI impI)
      fix k assume k: "i < k \<and> k < j + 1"
      then show "pivot < arr ! nat k"
        using False Suc.prems(7) by (cases "k = j") simp_all
    qed
    from Suc.hyps(1) [OF m Suc.prems(1,2) _ _ Suc.prems(5,6) gt] Suc.prems jh
    show ?thesis
      using step by simp
  qed
qed

lemma mset_segment_frame:
  assumes len: "length ys = length xs" and ms: "mset ys = mset xs"
    and lo: "0 \<le> low" "low \<le> high + 1" and hi: "high < int (length xs)"
    and frame: "\<forall>k. 0 \<le> k \<and> (k < low \<or> high < k) \<longrightarrow> ys ! nat k = xs ! nat k"
  shows "mset (segment ys low high) = mset (segment xs low high)"
proof -
  define l m where "l = nat low" and "m = nat (high - low + 1)"
  have lm: "l + m \<le> length xs"
    using lo hi by (simp add: l_def m_def)
  have split: "zs = take l zs @ take m (drop l zs) @ drop (l + m) zs" for zs :: "int list"
    by (metis add.commute append_take_drop_id drop_drop)
  have front: "take l ys = take l xs"
  proof (rule nth_take_lemma)
    show "l \<le> length ys" "l \<le> length xs" using lm len by simp_all
    show "i < l \<longrightarrow> ys ! i = xs ! i" for i
    proof
      assume "i < l"
      then have "int i < low" by (simp add: l_def)
      with frame [rule_format, of "int i"] show "ys ! i = xs ! i" by simp
    qed
  qed
  have rear: "drop (l + m) ys = drop (l + m) xs"
  proof (rule nth_equalityI)
    show "length (drop (l + m) ys) = length (drop (l + m) xs)" using len by simp
    show "drop (l + m) ys ! i = drop (l + m) xs ! i" if "i < length (drop (l + m) ys)" for i
    proof -
      have "high < int (l + m + i)" using lo by (simp add: l_def m_def)
      with frame [rule_format, of "int (l + m + i)"]
      have "ys ! nat (int (l + m + i)) = xs ! nat (int (l + m + i))" by simp
      then have "ys ! (l + m + i) = xs ! (l + m + i)" by (simp only: nat_int)
      with that lm len show ?thesis by simp
    qed
  qed
  have "mset (take l ys) + mset (take m (drop l ys)) + mset (drop (l + m) ys)
      = mset (take l xs) + mset (take m (drop l xs)) + mset (drop (l + m) xs)"
    using ms split [of ys] split [of xs]
    by (metis mset_append add.assoc)
  then have "mset (take m (drop l ys)) = mset (take m (drop l xs))"
    unfolding front rear by simp
  then show ?thesis
    by (simp add: segment_def l_def m_def)
qed




lemma partition_arr_spec:
  assumes "0 \<le> low" "low \<le> high" "high < int (length arr)"
  shows "\<exists>arr' p. partition_arr arr low high = Some (arr', p)
    \<and> length arr' = length arr \<and> mset arr' = mset arr \<and> low \<le> p \<and> p \<le> high
    \<and> arr' ! nat p = arr ! nat high
    \<and> (\<forall>k. low \<le> k \<and> k < p \<longrightarrow> arr' ! nat k \<le> arr ! nat high)
    \<and> (\<forall>k. p < k \<and> k \<le> high \<longrightarrow> arr ! nat high < arr' ! nat k)
    \<and> (\<forall>k. 0 \<le> k \<and> (k < low \<or> high < k) \<longrightarrow> arr' ! nat k = arr ! nat k)"
proof -
  let ?pivot = "arr ! nat high"
  have "\<exists>arr1 i. partition_loop arr ?pivot high (low - 1) low = Some (arr1, i)
    \<and> length arr1 = length arr \<and> mset arr1 = mset arr \<and> low - 1 \<le> i \<and> i < high
    \<and> (\<forall>k. low \<le> k \<and> k \<le> i \<longrightarrow> arr1 ! nat k \<le> ?pivot)
    \<and> (\<forall>k. i < k \<and> k < high \<longrightarrow> ?pivot < arr1 ! nat k)
    \<and> (\<forall>k. 0 \<le> k \<and> (k < low \<or> high \<le> k) \<longrightarrow> arr1 ! nat k = arr ! nat k)"
    using assms by (intro partition_loop_spec) simp_all
  then obtain arr1 i where l: "partition_loop arr ?pivot high (low - 1) low = Some (arr1, i)"
    "length arr1 = length arr" "mset arr1 = mset arr" "low - 1 \<le> i" "i < high"
    "\<forall>k. low \<le> k \<and> k \<le> i \<longrightarrow> arr1 ! nat k \<le> ?pivot"
    "\<forall>k. i < k \<and> k < high \<longrightarrow> ?pivot < arr1 ! nat k"
    "\<forall>k. 0 \<le> k \<and> (k < low \<or> high \<le> k) \<longrightarrow> arr1 ! nat k = arr ! nat k"
    by blast
  let ?arr3 = "arr1[nat (i + 1) := arr1 ! nat high, nat high := arr1 ! nat (i + 1)]"
  have ib: "0 \<le> i + 1" "i + 1 < int (length arr1)" and hb: "0 \<le> high" "high < int (length arr1)"
    using assms l(2,4,5) by simp_all
  have nth: "?arr3 ! nat k = (if k = high then arr1 ! nat (i + 1) else if k = i + 1 then arr1 ! nat high else arr1 ! nat k)"
    if "0 \<le> k" for k
    using nth_swap [OF ib hb that] .
  have piv: "arr1 ! nat high = ?pivot"
    using l(8) hb by simp
  have run: "partition_arr arr low high = Some (?arr3, i + 1)"
    using assms l(1) ib hb by (simp add: partition_arr_def vec_at_def vec_put_def)
  have "mset ?arr3 = mset arr"
    using mset_swap_int [OF ib hb] l(3) by simp
  moreover have "?arr3 ! nat (i + 1) = ?pivot"
  proof -
    have "?arr3 ! nat (i + 1) = (if i + 1 = high then arr1 ! nat (i + 1) else arr1 ! nat high)"
      using nth [OF ib(1)] by simp
    then show ?thesis using piv by (simp split: if_splits)
  qed
  moreover have "\<forall>k. low \<le> k \<and> k < i + 1 \<longrightarrow> ?arr3 ! nat k \<le> ?pivot"
    using l(5,6) assms(1) by (auto simp: nth)
  moreover have "\<forall>k. i + 1 < k \<and> k \<le> high \<longrightarrow> ?pivot < ?arr3 ! nat k"
    using l(5,7) ib by (auto simp: nth)
  moreover have "\<forall>k. 0 \<le> k \<and> (k < low \<or> high < k) \<longrightarrow> ?arr3 ! nat k = arr ! nat k"
    using l(4,5,8) by (auto simp: nth)
  ultimately show ?thesis
    using run l(2,4,5) by simp
qed

section \<open>A prefix that holds the smallest elements\<close>




section \<open>The partition step keeps the splits\<close>



section \<open>The QuickSelect loop\<close>



lemma quickSelect_returns:
  assumes "0 \<le> low" "high < int (length arr)"
  shows "\<exists>v arr' steps'. quickSelect arr low high k steps = Some (v, arr', steps')
    \<and> steps' \<le> steps + nat (high - low + 1)"
  using assms
proof (induction "nat (high - low + 1)" arbitrary: arr low high steps rule: less_induct)
  case less
  show ?case
  proof (cases "low \<le> high")
    case False
    then show ?thesis by (simp add: quickSelect.simps)
  next
    case True
    from partition_arr_spec [OF less.prems(1) True less.prems(2)] obtain arr1 p where
      part: "partition_arr arr low high = Some (arr1, p)"
      and len: "length arr1 = length arr" and p: "low \<le> p" "p \<le> high"
      by blast
    have pb: "0 \<le> p" "p < int (length arr1)"
      using less.prems p len by simp_all
    have unfold: "quickSelect arr low high k steps =
       (if p = k - 1 then Some (arr1 ! nat p, arr1, Suc steps)
        else if p > k - 1 then quickSelect arr1 low (p - 1) k (Suc steps)
        else quickSelect arr1 (p + 1) high k (Suc steps))"
      using True pb part by (subst quickSelect.simps) (simp add: vec_at_def)
    consider (found) "p = k - 1" | (left) "p > k - 1" | (right) "p < k - 1" by linarith
    then show ?thesis
    proof cases
      case found
      with unfold True show ?thesis by simp
    next
      case left
      have "nat (p - 1 - low + 1) < nat (high - low + 1)" using p by simp
      from less.hyps [OF this less.prems(1), of arr1 "Suc steps"] pb(2)
      obtain v arr' steps' where
        r: "quickSelect arr1 low (p - 1) k (Suc steps) = Some (v, arr', steps')"
        "steps' \<le> Suc steps + nat (p - 1 - low + 1)"
        by auto
      have "steps' \<le> steps + nat (high - low + 1)" using r(2) p by simp
      with unfold left r(1) show ?thesis by simp
    next
      case right
      have "nat (high - (p + 1) + 1) < nat (high - low + 1)" using p by simp
      from less.hyps [OF this, of arr1 "Suc steps"] less.prems p len
      obtain v arr' steps' where
        r: "quickSelect arr1 (p + 1) high k (Suc steps) = Some (v, arr', steps')"
        "steps' \<le> Suc steps + nat (high - (p + 1) + 1)"
        by auto
      have "steps' \<le> steps + nat (high - low + 1)" using r(2) p by simp
      with unfold right r(1) show ?thesis by simp
    qed
  qed
qed

lemma quickselect_run_returns:
  assumes "1 \<le> n" "n \<le> int (length S)"
  shows "\<exists>v arr' steps. quickselect_run S n = Some (v, arr', steps) \<and> steps \<le> length S"
proof -
  define high where "high = to_int (int (length S) - 1)"
  have "0 \<le> int (length S) - 1" using assms by linarith
  then have "high \<le> int (length S) - 1"
    unfolding high_def by (rule to_int_le)
  then have hb: "high < int (length S)" by simp
  from quickSelect_returns [OF order_refl hb, of n 0] obtain v arr' steps where
    r: "quickSelect S 0 high n 0 = Some (v, arr', steps)" "steps \<le> 0 + nat (high - 0 + 1)"
    by blast
  have "steps \<le> length S" using r(2) hb by simp
  moreover have "quickselect_run S n = Some (v, arr', steps)"
    using assms r(1) by (simp add: quickselect_run_def high_def)
  ultimately show ?thesis by blast
qed


lemma quickselect_run_invalid:
  "n \<le> 0 \<or> n > int (length S) \<Longrightarrow> quickselect_run S n = Some (- 1, S, 0)"
  by (simp add: quickselect_run_def)

section \<open>Sifting down\<close>











section \<open>The scan over the remaining elements\<close>




section \<open>The two entry points\<close>


lemma heap_run_invalid:
  "n \<le> 0 \<or> n > int (length S) \<Longrightarrow> heap_run S n = Some (- 1, S)"
  by (simp add: heap_run_def)

section \<open>A vector of more than \<open>2 ^ 31\<close> cells\<close>

text \<open>
  The vector that holds \<open>5\<close> and then \<open>2 ^ 31\<close> zeros has \<open>2 ^ 31 + 1\<close> cells. Its size does
  not fit \<^verbatim>\<open>int\<close>: \<^verbatim>\<open>high\<close> becomes \<open>- 2 ^ 31\<close> and \<^verbatim>\<open>size\<close> becomes \<open>1 - 2 ^ 31\<close>, so with
  the valid rank \<open>1\<close> the QuickSelect loop and the scan of the heap variant are skipped.
\<close>

lemma huge_length: "int (length (5 # replicate (2 ^ 31) (0::int))) = 2 ^ 31 + 1"
  by simp









section \<open>The properties of the specification\<close>










text \<open>
  C4. For every sequence \<open>S\<close> and every \<open>n\<close> with \<open>n \<le> 0\<close> or \<open>n > |S|\<close>, both algorithms
  return the sentinel \<open>-1\<close>. The empty input is covered: every \<open>n\<close> fails the range check
  there.
\<close>

theorem invalid_rank_returns_sentinel:
  "(n \<le> 0 \<or> n > int (length S) \<longrightarrow>
      sort_nth_smallest_quickselect S n = Some (- 1) \<and> sort_nth_smallest_heap S n = Some (- 1))
    \<and> sort_nth_smallest_quickselect [] n = Some (- 1) \<and> sort_nth_smallest_heap [] n = Some (- 1)"
proof -
  have "sort_nth_smallest_quickselect T n = Some (- 1) \<and> sort_nth_smallest_heap T n = Some (- 1)"
    if "n \<le> 0 \<or> n > int (length T)" for T
    using quickselect_run_invalid [OF that] heap_run_invalid [OF that]
    by (simp add: sort_nth_smallest_quickselect_def sort_nth_smallest_heap_def)
  moreover have "n \<le> 0 \<or> n > int (length ([] :: int list))"
    by (simp add: not_le [symmetric])
  ultimately show ?thesis by blast
qed

theorem invalid_rank_returns_sentinel_witness:
  "((5::int) \<le> 0 \<or> 5 > int (length [1, 2, 3 :: int]))
    \<and> sort_nth_smallest_quickselect [1, 2, 3] 5 = Some (- 1)
    \<and> sort_nth_smallest_heap [1, 2, 3] 5 = Some (- 1)"
  using invalid_rank_returns_sentinel [of 5 "[1, 2, 3]"] by simp




text \<open>
  C6. For every segment \<open>[low, high]\<close> of the vector with \<open>low \<le> high\<close>, the partition step
  takes the last element of the segment as pivot and returns an index \<open>p\<close> in \<open>[low, high]\<close>
  such that afterwards the pivot value is at position \<open>p\<close>, every element in the positions
  \<open>[low, p - 1]\<close> is \<open>\<le>\<close> the pivot, every element in the positions \<open>[p + 1, high]\<close> is \<open>>\<close>
  the pivot (elements equal to the pivot go to the left side), and the multiset of the
  values of the segment is unchanged.
\<close>

theorem partition_step_correct:
  assumes "0 \<le> low" and "low \<le> high" and "high < int (length arr)"
  shows "\<exists>arr' p. partition_arr arr low high = Some (arr', p) \<and> low \<le> p \<and> p \<le> high
    \<and> arr' ! nat p = arr ! nat high
    \<and> (\<forall>k. low \<le> k \<and> k < p \<longrightarrow> arr' ! nat k \<le> arr ! nat high)
    \<and> (\<forall>k. p < k \<and> k \<le> high \<longrightarrow> arr ! nat high < arr' ! nat k)
    \<and> mset (segment arr' low high) = mset (segment arr low high)"
proof -
  from partition_arr_spec [OF assms] obtain arr' p where
    r: "partition_arr arr low high = Some (arr', p)"
    "length arr' = length arr" "mset arr' = mset arr" "low \<le> p" "p \<le> high"
    "arr' ! nat p = arr ! nat high"
    "\<forall>k. low \<le> k \<and> k < p \<longrightarrow> arr' ! nat k \<le> arr ! nat high"
    "\<forall>k. p < k \<and> k \<le> high \<longrightarrow> arr ! nat high < arr' ! nat k"
    "\<forall>k. 0 \<le> k \<and> (k < low \<or> high < k) \<longrightarrow> arr' ! nat k = arr ! nat k"
    by blast
  have "mset (segment arr' low high) = mset (segment arr low high)"
    using mset_segment_frame [OF r(2,3) assms(1) _ assms(3) r(9)] assms(2) by simp
  with r show ?thesis by blast
qed

theorem partition_step_correct_witness:
  "(0::int) \<le> 1 \<and> (1::int) \<le> 3 \<and> 3 < int (length [3, 1, 4, 1, 5 :: int])
    \<and> partition_arr [3, 1, 4, 1, 5] 1 3 = Some ([3, 1, 1, 4, 5], 2)
    \<and> mset (segment [3, 1, 1, 4, 5] 1 3) = mset (segment [3, 1, 4, 1, 5] 1 3)"
proof -
  from partition_step_correct [of 1 3 "[3, 1, 4, 1, 5]"] obtain arr' p where
    r: "partition_arr [3, 1, 4, 1, 5] 1 3 = Some (arr', p)"
    "mset (segment arr' 1 3) = mset (segment [3, 1, 4, 1, 5] 1 3)"
    by auto
  have "partition_arr [3, 1, 4, 1, 5] 1 3 = Some ([3, 1, 1, 4, 5], 2)"
    by (simp add: partition_arr_def partition_loop.simps vec_at_def vec_put_def)
  with r show ?thesis by simp
qed

text \<open>
  C7. For every sequence \<open>S\<close> and every valid \<open>n\<close>, the QuickSelect loop terminates: every
  call of the partition step puts the pivot inside the active range \<open>[low, high]\<close>, the
  range that is kept, \<open>[low, p - 1]\<close> or \<open>[p + 1, high]\<close>, is strictly shorter, and the loop
  makes at most \<open>|S|\<close> partition steps before it returns.
\<close>

theorem quickselect_terminates:
  assumes "1 \<le> n" and "n \<le> int (length S)"
  shows "(\<exists>v arr' steps. quickselect_run S n = Some (v, arr', steps) \<and> steps \<le> length S)
    \<and> (\<forall>arr low high arr1 p. low \<le> high \<and> partition_arr arr low high = Some (arr1, p) \<longrightarrow>
          low \<le> p \<and> p \<le> high
          \<and> nat (p - 1 - low + 1) < nat (high - low + 1)
          \<and> nat (high - (p + 1) + 1) < nat (high - low + 1))"
proof
  from quickselect_run_returns [OF assms]
  show "\<exists>v arr' steps. quickselect_run S n = Some (v, arr', steps) \<and> steps \<le> length S"
    by blast
  show "\<forall>arr low high arr1 p. low \<le> high \<and> partition_arr arr low high = Some (arr1, p) \<longrightarrow>
          low \<le> p \<and> p \<le> high
          \<and> nat (p - 1 - low + 1) < nat (high - low + 1)
          \<and> nat (high - (p + 1) + 1) < nat (high - low + 1)"
  proof (intro allI impI)
    fix arr low high arr1 p
    assume "low \<le> high \<and> partition_arr arr low high = Some (arr1, p)"
    then have "low \<le> p \<and> p \<le> high"
      using partition_arr_range [of arr low high arr1 p] by simp
    then show "low \<le> p \<and> p \<le> high
          \<and> nat (p - 1 - low + 1) < nat (high - low + 1)
          \<and> nat (high - (p + 1) + 1) < nat (high - low + 1)"
      by simp
  qed
qed

theorem quickselect_terminates_witness:
  "(1::int) \<le> 5 \<and> 5 \<le> int (length [8, 7, 6, 5, 4, 3, 2, 1 :: int])
    \<and> (\<exists>v arr' steps. quickselect_run [8, 7, 6, 5, 4, 3, 2, 1] 5 = Some (v, arr', steps)
        \<and> steps \<le> length [8, 7, 6, 5, 4, 3, 2, 1 :: int])"
  using quickselect_terminates [of 5 "[8, 7, 6, 5, 4, 3, 2, 1]"] by simp

text \<open>
  C8. The sentinel \<open>-1\<close> is not disjoint from the valid answers: there are a sequence \<open>S\<close>
  and a valid \<open>n\<close> for which both algorithms return \<open>-1\<close> as the correct result, the same
  value that they return for an invalid rank.
\<close>

theorem sentinel_is_a_valid_answer:
  "\<exists>S n. 1 \<le> n \<and> n \<le> int (length S) \<and> sort S ! nat (n - 1) = - 1
    \<and> sort_nth_smallest_quickselect S n = Some (- 1)
    \<and> sort_nth_smallest_heap S n = Some (- 1)
    \<and> sort_nth_smallest_quickselect S n = sort_nth_smallest_quickselect S 0
    \<and> sort_nth_smallest_heap S n = sort_nth_smallest_heap S 0"
proof (intro exI conjI)
  show "(1::int) \<le> 1" by simp
  show "1 \<le> int (length [- 1 :: int])" by simp
  show "sort [- 1 :: int] ! nat (1 - 1) = - 1" by simp
  have q: "quickselect_run [- 1] 1 = Some (- 1, [- 1], 1)"
    by (simp add: quickselect_run_def to_int_def quickSelect.simps partition_arr_def
        partition_loop.simps vec_at_def vec_put_def)
  have h: "heap_run [- 1] 1 = Some (- 1, [- 1])"
    by (simp add: heap_run_def build_loop.simps scan_loop.simps heapifyDown_def
        heapify_loop.simps left_child_def to_int_def vec_at_def signed_divide_int_def)
  show "sort_nth_smallest_quickselect [- 1] 1 = Some (- 1)"
    by (simp add: sort_nth_smallest_quickselect_def q)
  show "sort_nth_smallest_heap [- 1] 1 = Some (- 1)"
    by (simp add: sort_nth_smallest_heap_def h)
  show "sort_nth_smallest_quickselect [- 1] 1 = sort_nth_smallest_quickselect [- 1] 0"
    by (simp add: sort_nth_smallest_quickselect_def q quickselect_run_invalid)
  show "sort_nth_smallest_heap [- 1] 1 = sort_nth_smallest_heap [- 1] 0"
    by (simp add: sort_nth_smallest_heap_def h heap_run_invalid)
qed

end
